theory Spec2Isabelle
  imports Main
begin

section \<open>Characters and strings as Python sees them\<close>

text \<open>
  Text is modelled as a list of 8-bit characters and the character classes are the ASCII
  ones: this is what \<^verbatim>\<open>str.isupper\<close>, \<^verbatim>\<open>str.split\<close>, \<^verbatim>\<open>\w\<close> and \<^verbatim>\<open>\s\<close> compute on
  ASCII text. Characters above 127 belong to no class here, so the model follows the
  program on ASCII input.
\<close>

definition isupper :: "char \<Rightarrow> bool" where
  "isupper c = (65 \<le> (of_char c :: nat) \<and> (of_char c :: nat) \<le> 90)"

definition islower :: "char \<Rightarrow> bool" where
  "islower c = (97 \<le> (of_char c :: nat) \<and> (of_char c :: nat) \<le> 122)"

definition isdigit :: "char \<Rightarrow> bool" where
  "isdigit c = (48 \<le> (of_char c :: nat) \<and> (of_char c :: nat) \<le> 57)"

definition isspace :: "char \<Rightarrow> bool" where
  \<comment> \<open>tab, line feed, vertical tab, form feed, carriage return, the four separators
      0x1c..0x1f, and the space\<close>
  "isspace c = ((9 \<le> (of_char c :: nat) \<and> (of_char c :: nat) \<le> 13)
              \<or> (28 \<le> (of_char c :: nat) \<and> (of_char c :: nat) \<le> 32))"

definition is_word :: "char \<Rightarrow> bool" where
  \<comment> \<open>the class \<^verbatim>\<open>\w\<close>\<close>
  "is_word c = (isupper c \<or> islower c \<or> isdigit c \<or> c = CHR ''_'')"

definition is_punct :: "char \<Rightarrow> bool" where
  \<comment> \<open>the class \<^verbatim>\<open>[!.,;?]\<close>\<close>
  "is_punct c = (c = CHR ''!'' \<or> c = CHR ''.'' \<or> c = CHR '','' \<or> c = CHR '';'' \<or> c = CHR ''?'')"

definition upper :: "char \<Rightarrow> char" where
  "upper c = (if islower c then char_of ((of_char c :: nat) - 32) else c)"

definition lower :: "char \<Rightarrow> char" where
  "lower c = (if isupper c then char_of ((of_char c :: nat) + 32) else c)"

fun capitalize :: "string \<Rightarrow> string" where
  \<comment> \<open>\<^verbatim>\<open>str.capitalize\<close>: first character upper-cased, all the others lower-cased\<close>
  "capitalize [] = []"
| "capitalize (c # cs) = upper c # map lower cs"

fun join :: "string \<Rightarrow> string list \<Rightarrow> string" where
  \<comment> \<open>\<^verbatim>\<open>sep.join(xs)\<close>\<close>
  "join sep [] = []"
| "join sep [x] = x"
| "join sep (x # y # xs) = x @ sep @ join sep (y # xs)"

function str_split :: "string \<Rightarrow> string list" where
  \<comment> \<open>\<^verbatim>\<open>text.split()\<close>: the maximal runs of non-whitespace characters\<close>
  "str_split s =
     (let r = dropWhile isspace s
      in if r = [] then []
         else takeWhile (\<lambda>c. \<not> isspace c) r # str_split (dropWhile (\<lambda>c. \<not> isspace c) r))"
  by pat_completeness auto
termination
proof (relation "measure length")
  show "wf (measure length)" by simp
next
  fix s r :: string
  assume r: "r = dropWhile isspace s" and ne: "r \<noteq> []"
  from ne obtain c cs where rc: "r = c # cs" by (cases r) auto
  from r rc have "\<not> isspace c"
    using hd_dropWhile [of isspace s] by force
  then have "length (dropWhile (\<lambda>c. \<not> isspace c) r) \<le> length cs"
    using rc by (simp add: length_dropWhile_le)
  also have "\<dots> < length r" using rc by simp
  also have "\<dots> \<le> length s" using r by (simp add: length_dropWhile_le)
  finally show "(dropWhile (\<lambda>c. \<not> isspace c) r, s) \<in> measure length" by simp
qed

declare str_split.simps [simp del]

section \<open>The pattern of \<^verbatim>\<open>correct_spelling\<close>\<close>

text \<open>
  \<^verbatim>\<open>re.findall(r'([!.,;?]*)(\w+)([!.,;?]*)', segment)\<close>: the matches from left to right,
  none overlapping another. At a position the first group takes the whole run of marks;
  the match succeeds when a word character follows that run (giving back marks cannot
  help, since a mark is no word character), and the search goes on after the match.
  Otherwise the search moves one character on.
\<close>

function findall :: "string \<Rightarrow> (string \<times> string \<times> string) list" where
  "findall s =
     (if s = [] then []
      else let pre_punct = takeWhile is_punct s; r1 = dropWhile is_punct s;
               word = takeWhile is_word r1; r2 = dropWhile is_word r1;
               post_punct = takeWhile is_punct r2; r3 = dropWhile is_punct r2
           in if word \<noteq> [] then (pre_punct, word, post_punct) # findall r3
              else findall (tl s))"
  by pat_completeness auto
termination
proof (relation "measure length")
  show "wf (measure length)" by simp
next
  fix s pre_punct r1 word r2 post_punct r3 :: string
  assume s: "s \<noteq> []" and r1: "r1 = dropWhile is_punct s"
    and w: "word = takeWhile is_word r1" and r2: "r2 = dropWhile is_word r1"
    and r3: "r3 = dropWhile is_punct r2" and ne: "word \<noteq> []"
  from ne w have "length r2 < length r1"
    unfolding r2 by (cases r1) (auto simp: length_dropWhile_le less_Suc_eq_le split: if_splits)
  moreover have "length r3 \<le> length r2" unfolding r3 by (rule length_dropWhile_le)
  moreover have "length r1 \<le> length s" unfolding r1 by (rule length_dropWhile_le)
  ultimately show "(r3, s) \<in> measure length" by simp
next
  fix s pre_punct r1 word r2 post_punct r3 :: string
  assume "s \<noteq> []"
  then show "(tl s, s) \<in> measure length" by (cases s) auto
qed

declare findall.simps [simp del]

section \<open>Spelling correction\<close>

datatype error = AttributeError | IndexError

text \<open>
  The spell checker is an external library: \<open>spell\<close> stands for \<^verbatim>\<open>spell.correction\<close>,
  which gives a string or Python's \<^verbatim>\<open>None\<close>.
\<close>

type_synonym speller = "string \<Rightarrow> string option"

definition corrected_word :: "speller \<Rightarrow> string \<Rightarrow> error + string option" where
  \<comment> \<open>the value of \<^verbatim>\<open>corrected_word\<close> when the f-string is reached: \<^verbatim>\<open>word[0]\<close> raises
      on an empty word and \<^verbatim>\<open>None.capitalize()\<close> raises\<close>
  "corrected_word spell word =
     (let corrected_word = spell word
      in if word = [] then Inl IndexError
         else if isupper (hd word) then
           (case corrected_word of
              None \<Rightarrow> Inl AttributeError
            | Some c \<Rightarrow> Inr (Some (capitalize c)))
         else Inr corrected_word)"

definition str_of :: "string option \<Rightarrow> string" where
  \<comment> \<open>how an f-string formats a string or \<^verbatim>\<open>None\<close>\<close>
  "str_of v = (case v of None \<Rightarrow> ''None'' | Some s \<Rightarrow> s)"

definition correct_match :: "speller \<Rightarrow> string \<times> string \<times> string \<Rightarrow> error + string" where
  \<comment> \<open>the body of the inner loop\<close>
  "correct_match spell m =
     (case m of (pre_punct, word, post_punct) \<Rightarrow>
        (case corrected_word spell word of
           Inl e \<Rightarrow> Inl e
         | Inr v \<Rightarrow> Inr (pre_punct @ str_of v @ post_punct)))"

fun correct_words ::
  "speller \<Rightarrow> (string \<times> string \<times> string) list \<Rightarrow> string list \<Rightarrow> error + string list" where
  \<comment> \<open>the inner loop, appending to \<^verbatim>\<open>corrected_text\<close>\<close>
  "correct_words spell [] corrected_text = Inr corrected_text"
| "correct_words spell (m # ms) corrected_text =
     (case correct_match spell m of
        Inl e \<Rightarrow> Inl e
      | Inr t \<Rightarrow> correct_words spell ms (corrected_text @ [t]))"

fun correct_segments :: "speller \<Rightarrow> string list \<Rightarrow> string list \<Rightarrow> error + string list" where
  \<comment> \<open>the outer loop over \<^verbatim>\<open>text.split()\<close>\<close>
  "correct_segments spell [] corrected_text = Inr corrected_text"
| "correct_segments spell (segment # segments) corrected_text =
     (case correct_words spell (findall segment) corrected_text of
        Inl e \<Rightarrow> Inl e
      | Inr corrected_text' \<Rightarrow> correct_segments spell segments corrected_text')"

definition correct_spelling :: "speller \<Rightarrow> string \<Rightarrow> error + string" where
  "correct_spelling spell text =
     (case correct_segments spell (str_split text) [] of
        Inl e \<Rightarrow> Inl e
      | Inr corrected_text \<Rightarrow> Inr (join '' '' corrected_text))"

section \<open>Paraphrasing\<close>

text \<open>
  The tokenizer, the tagger, the lexical database and the random generator are external:
  \<open>tagger\<close> stands for \<^verbatim>\<open>pos_tag(word_tokenize(sentence))\<close>, \<open>synsets\<close> gives for a word
  the lemma names of each of its adjective synsets (\<^verbatim>\<open>wordnet.synsets(word, pos='a')\<close>),
  and \<open>rnd k\<close> is the number the generator yields at its \<open>k\<close>-th draw.
\<close>

definition synonyms_of :: "(string \<Rightarrow> string list list) \<Rightarrow> string \<Rightarrow> string list" where
  \<comment> \<open>the set \<^verbatim>\<open>synonyms\<close> that the two nested loops build, as a list without duplicates\<close>
  "synonyms_of synsets word = remdups (concat (synsets word))"

definition random_choice :: "nat \<Rightarrow> 'a list \<Rightarrow> error + 'a" where
  \<comment> \<open>\<^verbatim>\<open>random.choice(seq)\<close> is \<^verbatim>\<open>seq[randbelow(len(seq))]\<close> and raises on an empty
      sequence; the draw \<open>r\<close> is reduced to the range\<close>
  "random_choice r xs = (if xs = [] then Inl IndexError else Inr (xs ! (r mod length xs)))"

definition paraphrase_token ::
  "(string \<Rightarrow> string list list) \<Rightarrow> (nat \<Rightarrow> nat) \<Rightarrow> string \<times> string \<Rightarrow> nat \<Rightarrow> error + string \<times> nat" where
  \<comment> \<open>the body of the loop: the word to append and the number of draws made so far.
      \<^verbatim>\<open>list(synonyms - {word})\<close> comes in the set's own order, which only decides which
      draw yields which member\<close>
  "paraphrase_token synsets rnd t k =
     (case t of (word, pos) \<Rightarrow>
        if pos = ''JJ'' then
          let synonyms = synonyms_of synsets word
          in if length synonyms > 1 then
               (case random_choice (rnd k) (removeAll word synonyms) of
                  Inl e \<Rightarrow> Inl e
                | Inr w \<Rightarrow> Inr (w, Suc k))
             else Inr (word, k)
        else Inr (word, k))"

fun paraphrase_words ::
  "(string \<Rightarrow> string list list) \<Rightarrow> (nat \<Rightarrow> nat) \<Rightarrow> (string \<times> string) list \<Rightarrow> nat \<Rightarrow> string list
     \<Rightarrow> error + string list" where
  "paraphrase_words synsets rnd [] k paraphrased_words = Inr paraphrased_words"
| "paraphrase_words synsets rnd (t # ts) k paraphrased_words =
     (case paraphrase_token synsets rnd t k of
        Inl e \<Rightarrow> Inl e
      | Inr (w, k') \<Rightarrow> paraphrase_words synsets rnd ts k' (paraphrased_words @ [w]))"

definition is_mark :: "char \<Rightarrow> bool" where
  \<comment> \<open>the class \<^verbatim>\<open>[?.!,:;"]\<close>\<close>
  "is_mark c = (c = CHR ''?'' \<or> c = CHR ''.'' \<or> c = CHR ''!'' \<or> c = CHR '','' \<or> c = CHR '':''
                \<or> c = CHR '';'' \<or> c = CHR 0x22)"

fun re_sub :: "string \<Rightarrow> string" where
  \<comment> \<open>\<^verbatim>\<open>re.sub(r'\s([?.!,:;"](?:\s|$))', r'\1', s)\<close>: a whitespace character before a mark
      that is followed by whitespace or ends the string is removed; the search goes on
      after the match, which includes the whitespace that follows the mark\<close>
  "re_sub (a # b # c # rest) =
     (if isspace a \<and> is_mark b \<and> isspace c then b # c # re_sub rest
      else a # re_sub (b # c # rest))"
| "re_sub [a, b] = (if isspace a \<and> is_mark b then [b] else [a, b])"
| "re_sub s = s"

definition paraphrase_sentence ::
  "(string \<Rightarrow> (string \<times> string) list) \<Rightarrow> (string \<Rightarrow> string list list) \<Rightarrow> (nat \<Rightarrow> nat) \<Rightarrow> string
     \<Rightarrow> error + string" where
  "paraphrase_sentence tagger synsets rnd sentence =
     (let pos_tags = tagger sentence
      in case paraphrase_words synsets rnd pos_tags 0 [] of
           Inl e \<Rightarrow> Inl e
         | Inr paraphrased_words \<Rightarrow> Inr (re_sub (join '' '' paraphrased_words)))"

section \<open>The text displays\<close>

text \<open>
  A Tk text widget holds runs of characters, each run with the tags it carries, followed
  by a final newline that is always there and is no part of \<open>runs\<close>. Indices are
  offsets into the buffer; \<open>sel\<close> is the selected range, if there is one.
\<close>

record text_widget =
  runs :: "(string \<times> string list) list"
  sel :: "(nat \<times> nat) option"
  tag_options :: "(string \<times> string) list"

definition contents :: "text_widget \<Rightarrow> string" where
  "contents w = concat (map fst (runs w))"

definition buffer :: "text_widget \<Rightarrow> string" where
  "buffer w = contents w @ [CHR 0x0A]"

definition END :: "text_widget \<Rightarrow> nat" where
  "END w = length (buffer w)"

definition get :: "text_widget \<Rightarrow> nat \<Rightarrow> nat \<Rightarrow> string" where
  "get w i j = take (j - i) (drop i (buffer w))"

definition delete_all :: "text_widget \<Rightarrow> text_widget" where
  \<comment> \<open>\<^verbatim>\<open>delete("1.0", tk.END)\<close>: the final newline stays\<close>
  "delete_all w = w\<lparr>runs := [], sel := None\<rparr>"

definition insert_end :: "text_widget \<Rightarrow> string \<Rightarrow> string list \<Rightarrow> text_widget" where
  \<comment> \<open>\<^verbatim>\<open>insert(tk.END, chars, *tags)\<close>: before the final newline\<close>
  "insert_end w chars tags = w\<lparr>runs := runs w @ [(chars, tags)]\<rparr>"

definition tag_configure :: "text_widget \<Rightarrow> string \<Rightarrow> string \<Rightarrow> text_widget" where
  "tag_configure w tag opts = w\<lparr>tag_options := (tag, opts) # tag_options w\<rparr>"

definition tag_add_all :: "text_widget \<Rightarrow> string \<Rightarrow> text_widget" where
  \<comment> \<open>\<^verbatim>\<open>tag_add(tag, "1.0", tk.END)\<close>\<close>
  "tag_add_all w tag = w\<lparr>runs := map (\<lambda>(chars, tags). (chars, tags @ [tag])) (runs w)\<rparr>"

record app =
  original_text_widget :: text_widget
  corrected_text_widget :: text_widget
  paraphrase_text_widget :: text_widget

fun insert_words :: "(string \<times> string \<times> string) list \<Rightarrow> text_widget \<Rightarrow> text_widget" where
  \<comment> \<open>the loop over \<^verbatim>\<open>zip(words_original, words_paraphrased, words_corrected)\<close>\<close>
  "insert_words [] w = w"
| "insert_words ((orig, para, corr) # rest) w =
     insert_words rest
       (if para \<noteq> corr then insert_end w (para @ '' '') [''changed'']
        else insert_end w (para @ '' '') [])"

definition update_paraphrase ::
  "speller \<Rightarrow> (string \<Rightarrow> (string \<times> string) list) \<Rightarrow> (string \<Rightarrow> string list list) \<Rightarrow> (nat \<Rightarrow> nat)
     \<Rightarrow> app \<Rightarrow> error option \<times> app" where
  \<comment> \<open>the state the handler leaves, with the exception if one escapes; the text read
      into \<^verbatim>\<open>original_text\<close> and \<^verbatim>\<open>reconstructed_text\<close> is never used\<close>
  "update_paraphrase spell tagger synsets rnd a =
     (let cw = corrected_text_widget a
      in case sel cw of
           None \<Rightarrow> (None, a)
         | Some (start_idx, end_idx) \<Rightarrow>
             (let selected_text = get cw start_idx end_idx;
                  before_selected = get cw 0 start_idx;
                  after_selected = get cw end_idx (END cw)
              in case paraphrase_sentence tagger synsets rnd selected_text of
                   Inl e \<Rightarrow> (Some e, a)
                 | Inr paraphrased \<Rightarrow>
                     (let pw1 = insert_end (delete_all (paraphrase_text_widget a)) before_selected [];
                          words_original = str_split selected_text;
                          words_paraphrased = str_split paraphrased
                      in case correct_spelling spell selected_text of
                           Inl e \<Rightarrow> (Some e, a\<lparr>paraphrase_text_widget := pw1\<rparr>)
                         | Inr corrected \<Rightarrow>
                             (let words_corrected = str_split corrected;
                                  pw2 = insert_words
                                          (zip words_original (zip words_paraphrased words_corrected)) pw1;
                                  pw3 = insert_end pw2 after_selected [];
                                  pw4 = tag_configure pw3 ''changed'' ''italic, yellow background'';
                                  pw5 = tag_add_all pw4 ''selectable''
                              in (None, a\<lparr>paraphrase_text_widget := pw5\<rparr>)))))"

section \<open>Sample collaborators\<close>

definition sample_spell :: speller where
  \<comment> \<open>a checker that knows four words and finds no correction for any other\<close>
  "sample_spell = map_of [(''Ths'', ''this''), (''is'', ''is''), (''a'', ''a''), (''tst'', ''test'')]"

definition contraction_spell :: speller where
  \<comment> \<open>a checker whose dictionary holds a contraction\<close>
  "contraction_spell = map_of [(''dont'', ''don't'')]"

definition mixed_spell :: speller where
  \<comment> \<open>the four words of the first checker and the contraction of the second\<close>
  "mixed_spell =
     map_of [(''Ths'', ''this''), (''is'', ''is''), (''a'', ''a''), (''tst'', ''test''),
             (''dont'', ''don't'')]"

definition sample_synsets :: "string \<Rightarrow> string list list" where
  \<comment> \<open>a lexical database with two adjectives\<close>
  "sample_synsets word =
     (if word = ''big'' then [[''big'', ''large'']]
      else if word = ''red'' then [[''red'', ''ruddy'', ''crimson''], [''red'', ''reddish'']]
      else [])"

definition sample_tagger :: "string \<Rightarrow> (string \<times> string) list" where
  \<comment> \<open>a tagger that knows one sentence and takes every other word for a noun\<close>
  "sample_tagger sentence =
     (if sentence = ''a big red dog.'' then
        [(''a'', ''DT''), (''big'', ''JJ''), (''red'', ''JJ''), (''dog'', ''NN''), (''.'', ''.'')]
      else map (\<lambda>w. (w, ''NN'')) (str_split sentence))"

definition word_tagger :: "string \<Rightarrow> (string \<times> string) list" where
  \<comment> \<open>a tagger that takes the words between whitespace for tokens, big and red for
      adjectives and every other token for a noun\<close>
  "word_tagger sentence =
     map (\<lambda>w. (w, if w = ''big'' \<or> w = ''red'' then ''JJ'' else ''NN'')) (str_split sentence)"

definition empty_widget :: text_widget where
  "empty_widget = \<lparr>runs = [], sel = None, tag_options = []\<rparr>"

definition sample_app :: app where
  \<comment> \<open>the words from the big dog to the exclamation mark are selected\<close>
  "sample_app =
     \<lparr>original_text_widget = empty_widget\<lparr>runs := [(''See teh big dog ! Bye'', [])]\<rparr>,
      corrected_text_widget =
        empty_widget\<lparr>runs := [(''See the big dog ! Bye'', [])], sel := Some (4, 17)\<rparr>,
      paraphrase_text_widget = empty_widget\<lparr>runs := [(''earlier text'', [])]\<rparr>\<rparr>"

definition idle_app :: app where
  \<comment> \<open>the same displays with nothing selected\<close>
  "idle_app =
     sample_app\<lparr>corrected_text_widget := (corrected_text_widget sample_app)\<lparr>sel := None\<rparr>\<rparr>"

section \<open>Spelling correction: the word without a correction\<close>

text \<open>
  C1. When the checker finds no correction for a word, the output should carry the word
  unchanged and no error should escape. The code has no such fallback: for a word that
  starts with an upper-case letter \<^verbatim>\<open>None.capitalize()\<close> raises, and for any other word
  the text None is written in its place.
\<close>

theorem correct_spelling_without_correction:
  "correct_spelling sample_spell ''Ths is a Qzxv'' = Inl AttributeError
   \<and> correct_spelling sample_spell ''Ths is a qzxv.'' = Inr ''This is a None.''"
  by code_simp

section \<open>Facts about the character classes and the string functions\<close>

lemma isupper_not_islower: "isupper c \<Longrightarrow> \<not> islower c"
  by (simp add: isupper_def islower_def)

lemma isupper_upper: "islower c \<Longrightarrow> isupper (upper c)"
  by (auto simp: upper_def islower_def isupper_def)

lemma isupper_upper_id: "isupper c \<Longrightarrow> upper c = c"
  by (simp add: upper_def isupper_not_islower)

lemma is_word_upper: "is_word c \<Longrightarrow> is_word (upper c)"
  unfolding upper_def is_word_def using isupper_upper[of c] by (auto simp: upper_def)

lemma islower_lower: "isupper c \<Longrightarrow> islower (lower c)"
  by (auto simp: lower_def islower_def isupper_def)

lemma is_word_lower: "is_word c \<Longrightarrow> is_word (lower c)"
  unfolding lower_def is_word_def using islower_lower[of c] by (auto simp: lower_def)

lemma is_word_not_isspace: "is_word c \<Longrightarrow> \<not> isspace c"
  by (auto simp: is_word_def isspace_def isupper_def islower_def isdigit_def)

lemma is_punct_not_isspace: "is_punct c \<Longrightarrow> \<not> isspace c"
  by (auto simp: is_punct_def isspace_def)

lemma is_punct_not_is_word: "is_punct c \<Longrightarrow> \<not> is_word c"
  by (auto simp: is_punct_def is_word_def isupper_def islower_def isdigit_def)

lemma str_split_Nil: "str_split [] = []"
  by (simp add: str_split.simps)

lemma str_split_dropWhile: "str_split (dropWhile isspace s) = str_split s"
  by (subst (1 2) str_split.simps) (simp add: dropWhile_idem)

lemma str_split_space: "isspace c \<Longrightarrow> str_split (c # cs) = str_split cs"
  using str_split_dropWhile [of "c # cs"] str_split_dropWhile [of cs] by simp

lemma str_split_nonspace:
  "\<not> isspace c \<Longrightarrow>
   str_split (c # cs) =
     (c # takeWhile (\<lambda>c. \<not> isspace c) cs) # str_split (dropWhile (\<lambda>c. \<not> isspace c) cs)"
  by (subst str_split.simps) simp

lemma str_split_segments:
  "seg \<in> set (str_split s) \<Longrightarrow> seg \<noteq> [] \<and> list_all (\<lambda>c. \<not> isspace c) seg"
proof (induction s arbitrary: seg rule: length_induct)
  case (1 s)
  show ?case
  proof (cases s)
    case Nil
    with "1.prems" show ?thesis by (simp add: str_split_Nil)
  next
    case (Cons c cs)
    show ?thesis
    proof (cases "isspace c")
      case True
      with Cons "1.prems" have "seg \<in> set (str_split cs)" by (simp add: str_split_space)
      moreover have "length cs < length s" using Cons by simp
      ultimately show ?thesis using "1.IH" by blast
    next
      case False
      with Cons "1.prems" have
        "seg = c # takeWhile (\<lambda>c. \<not> isspace c) cs
         \<or> seg \<in> set (str_split (dropWhile (\<lambda>c. \<not> isspace c) cs))"
        by (simp add: str_split_nonspace)
      then show ?thesis
      proof
        assume "seg = c # takeWhile (\<lambda>c. \<not> isspace c) cs"
        with False show ?thesis
          by (auto simp: list_all_iff dest: set_takeWhileD)
      next
        assume m: "seg \<in> set (str_split (dropWhile (\<lambda>c. \<not> isspace c) cs))"
        have "length (dropWhile (\<lambda>c. \<not> isspace c) cs) < length s"
          using Cons length_dropWhile_le [of "\<lambda>c. \<not> isspace c" cs] by simp
        with "1.IH" m show ?thesis by blast
      qed
    qed
  qed
qed

lemma str_split_token:
  assumes "x \<noteq> []" "list_all (\<lambda>c. \<not> isspace c) x"
  shows "str_split (x @ CHR '' '' # rest) = x # str_split rest"
proof -
  from assms obtain c cs where x: "x = c # cs" by (cases x) auto
  have sp: "isspace CHR '' ''" by (simp add: isspace_def)
  from assms x have c: "\<not> isspace c" and cs: "\<forall>d\<in>set cs. \<not> isspace d"
    by (auto simp: list_all_iff)
  from cs sp have t: "takeWhile (\<lambda>c. \<not> isspace c) (cs @ CHR '' '' # rest) = cs"
    by (simp add: takeWhile_append2)
  from cs sp have d: "dropWhile (\<lambda>c. \<not> isspace c) (cs @ CHR '' '' # rest) = CHR '' '' # rest"
    by (simp add: dropWhile_append2)
  show ?thesis
    unfolding x append_Cons str_split_nonspace [OF c] t d str_split_space [OF sp] ..
qed

lemma str_split_single:
  assumes "x \<noteq> []" "list_all (\<lambda>c. \<not> isspace c) x"
  shows "str_split x = [x]"
proof -
  from assms obtain c cs where x: "x = c # cs" by (cases x) auto
  from assms x have c: "\<not> isspace c" and cs: "\<forall>d\<in>set cs. \<not> isspace d"
    by (auto simp: list_all_iff)
  from cs have t: "takeWhile (\<lambda>c. \<not> isspace c) cs = cs"
    and d: "dropWhile (\<lambda>c. \<not> isspace c) cs = []"
    by simp_all
  show ?thesis
    unfolding x str_split_nonspace [OF c] t d str_split_Nil ..
qed

lemma str_split_join:
  "list_all (\<lambda>x. x \<noteq> [] \<and> list_all (\<lambda>c. \<not> isspace c) x) toks \<Longrightarrow>
   str_split (join '' '' toks) = toks"
proof (induction "'' ''" toks rule: join.induct)
  case 1
  then show ?case by (simp add: str_split_Nil)
next
  case (2 x)
  then show ?case by (simp add: str_split_single)
next
  case (3 x y xs)
  then show ?case by (simp add: str_split_token)
qed

lemma findall_Nil: "findall [] = []"
  by (simp add: findall.simps)

lemma findall_match:
  assumes "takeWhile is_word (dropWhile is_punct s) \<noteq> []"
  shows "findall s =
           (takeWhile is_punct s, takeWhile is_word (dropWhile is_punct s),
            takeWhile is_punct (dropWhile is_word (dropWhile is_punct s)))
           # findall (dropWhile is_punct (dropWhile is_word (dropWhile is_punct s)))"
proof -
  from assms have "s \<noteq> []" by auto
  with assms show ?thesis by (subst findall.simps) (simp add: Let_def)
qed

lemma findall_skip:
  assumes "s \<noteq> []" "takeWhile is_word (dropWhile is_punct s) = []"
  shows "findall s = findall (tl s)"
  using assms by (subst findall.simps) (simp add: Let_def)

lemma findall_shape:
  "m \<in> set (findall s) \<Longrightarrow>
   list_all is_punct (fst m) \<and> fst (snd m) \<noteq> [] \<and> list_all is_word (fst (snd m))
   \<and> list_all is_punct (snd (snd m))"
proof (induction s arbitrary: m rule: length_induct)
  case (1 s)
  show ?case
  proof (cases "takeWhile is_word (dropWhile is_punct s) = []")
    case True
    show ?thesis
    proof (cases s)
      case Nil
      with "1.prems" show ?thesis by (simp add: findall_Nil)
    next
      case (Cons c cs)
      with True "1.prems" have "m \<in> set (findall cs)" by (simp add: findall_skip)
      moreover have "length cs < length s" using Cons by simp
      ultimately show ?thesis using "1.IH" by blast
    qed
  next
    case False
    let ?r = "dropWhile is_punct (dropWhile is_word (dropWhile is_punct s))"
    from False "1.prems" have
      "m = (takeWhile is_punct s, takeWhile is_word (dropWhile is_punct s),
            takeWhile is_punct (dropWhile is_word (dropWhile is_punct s)))
       \<or> m \<in> set (findall ?r)"
      by (simp add: findall_match)
    then show ?thesis
    proof
      assume "m = (takeWhile is_punct s, takeWhile is_word (dropWhile is_punct s),
            takeWhile is_punct (dropWhile is_word (dropWhile is_punct s)))"
      with False show ?thesis
        by (auto simp: list_all_iff dest: set_takeWhileD)
    next
      assume m: "m \<in> set (findall ?r)"
      have "length (dropWhile is_word (dropWhile is_punct s)) < length (dropWhile is_punct s)"
        using False by (cases "dropWhile is_punct s") (auto simp: less_Suc_eq_le length_dropWhile_le split: if_splits)
      moreover have "length ?r \<le> length (dropWhile is_word (dropWhile is_punct s))"
        by (rule length_dropWhile_le)
      moreover have "length (dropWhile is_punct s) \<le> length s"
        by (rule length_dropWhile_le)
      ultimately have "length ?r < length s" by simp
      with "1.IH" m show ?thesis by blast
    qed
  qed
qed

lemma findall_no_word: "\<not> list_ex is_word s \<Longrightarrow> findall s = []"
proof (induction s)
  case Nil
  show ?case by (rule findall_Nil)
next
  case (Cons c cs)
  have "takeWhile is_word (dropWhile is_punct (c # cs)) = []"
  proof (cases "dropWhile is_punct (c # cs)")
    case Nil
    then show ?thesis by simp
  next
    case (Cons d ds)
    then have "d \<in> set (c # cs)"
      by (metis list.set_intros(1) set_dropWhileD)
    with Cons.prems have "\<not> is_word d" by (auto simp: list_ex_iff)
    with Cons show ?thesis by simp
  qed
  then have "findall (c # cs) = findall cs" by (simp add: findall_skip)
  with Cons show ?case by (simp add: list_ex_iff)
qed

lemma findall_token:
  assumes p: "list_all is_punct p" and w: "w \<noteq> []" "list_all is_word w"
    and q: "list_all is_punct q"
  shows "findall (p @ w @ q) = [(p, w, q)]"
proof -
  from w obtain c cs where wc: "w = c # cs" by (cases w) auto
  from w wc have c: "is_word c" "\<not> is_punct c"
    using is_punct_not_is_word by (auto simp: list_all_iff)
  from p c have tp: "takeWhile is_punct (p @ w @ q) = p"
    and dp: "dropWhile is_punct (p @ w @ q) = w @ q"
    by (simp_all add: wc list_all_iff takeWhile_append2 dropWhile_append2)
  have nq: "\<forall>x\<in>set q. \<not> is_word x"
    using q is_punct_not_is_word by (auto simp: list_all_iff)
  have tw: "takeWhile is_word (w @ q) = w"
  proof (cases q)
    case Nil
    with w show ?thesis by (simp add: list_all_iff)
  next
    case (Cons d ds)
    with nq have "\<not> is_word d" by simp
    with w Cons show ?thesis by (simp add: list_all_iff takeWhile_append2)
  qed
  have dw: "dropWhile is_word (w @ q) = q"
  proof (cases q)
    case Nil
    with w show ?thesis by (simp add: list_all_iff)
  next
    case (Cons d ds)
    with nq have "\<not> is_word d" by simp
    with w Cons show ?thesis by (simp add: list_all_iff dropWhile_append2)
  qed
  from q have tq: "takeWhile is_punct q = q" and dq: "dropWhile is_punct q = []"
    by (simp_all add: list_all_iff)
  have "takeWhile is_word (dropWhile is_punct (p @ w @ q)) \<noteq> []"
    unfolding dp tw by (rule w)
  from findall_match [OF this] show ?thesis
    unfolding dp tw dw tp tq dq findall_Nil .
qed

section \<open>Facts about the correction loops\<close>

lemma correct_words_append:
  "correct_words spell (ms @ ns) acc =
     (case correct_words spell ms acc of
        Inl e \<Rightarrow> Inl e
      | Inr acc' \<Rightarrow> correct_words spell ns acc')"
  by (induction ms arbitrary: acc) (auto split: sum.splits)

lemma correct_segments_matches:
  "correct_segments spell segs acc = correct_words spell (concat (map findall segs)) acc"
proof (induction segs arbitrary: acc)
  case Nil
  show ?case by simp
next
  case (Cons seg segs)
  show ?case
    by (simp add: correct_words_append Cons.IH split: sum.splits)
qed

lemma correct_words_Inr:
  "correct_words spell ms acc = Inr out \<longleftrightarrow>
     (\<exists>ts. out = acc @ ts \<and> map (correct_match spell) ms = map Inr ts)"
proof (induction ms arbitrary: acc)
  case Nil
  show ?case by auto
next
  case (Cons m ms)
  show ?case
  proof (cases "correct_match spell m")
    case (Inl e)
    then show ?thesis by (auto simp: map_eq_Cons_conv)
  next
    case (Inr t)
    have "(\<exists>ts. out = (acc @ [t]) @ ts \<and> map (correct_match spell) ms = map Inr ts)
          \<longleftrightarrow> (\<exists>ts. out = acc @ ts \<and> map (correct_match spell) (m # ms) = map Inr ts)"
      (is "?L \<longleftrightarrow> ?R")
    proof
      assume ?L
      then obtain ts where "out = (acc @ [t]) @ ts" "map (correct_match spell) ms = map Inr ts"
        by blast
      with Inr have "out = acc @ (t # ts) \<and> map (correct_match spell) (m # ms) = map Inr (t # ts)"
        by simp
      then show ?R by blast
    next
      assume ?R
      then obtain ts where ts: "out = acc @ ts" "map (correct_match spell) (m # ms) = map Inr ts"
        by blast
      with Inr obtain ts' where "ts = t # ts'" "map (correct_match spell) ms = map Inr ts'"
        by (cases ts) auto
      with ts show ?L by auto
    qed
    with Inr Cons.IH [of "acc @ [t]"] show ?thesis by simp
  qed
qed

lemma correct_spelling_Inr:
  "correct_spelling spell text = Inr out \<longleftrightarrow>
     (\<exists>ts. out = join '' '' ts
           \<and> map (correct_match spell) (concat (map findall (str_split text))) = map Inr ts)"
proof (cases "correct_words spell (concat (map findall (str_split text))) []")
  case (Inl e)
  then have "\<not> (\<exists>ts. map (correct_match spell) (concat (map findall (str_split text))) = map Inr ts)"
    using correct_words_Inr [of spell "concat (map findall (str_split text))" "[]"] by auto
  with Inl show ?thesis
    by (auto simp: correct_spelling_def correct_segments_matches)
next
  case (Inr toks)
  then have "map (correct_match spell) (concat (map findall (str_split text))) = map Inr toks"
    using correct_words_Inr [of spell "concat (map findall (str_split text))" "[]" toks] by simp
  with Inr show ?thesis
    by (auto simp: correct_spelling_def correct_segments_matches inj_map_eq_map [OF inj_Inr])
qed

lemma correct_words_total:
  "\<forall>m\<in>set ms. \<exists>t. correct_match spell m = Inr t \<Longrightarrow> \<exists>out. correct_words spell ms acc = Inr out"
  by (induction ms arbitrary: acc) (auto split: sum.splits)

lemma corrected_word_Some:
  "word \<noteq> [] \<Longrightarrow> spell word = Some c \<Longrightarrow>
   corrected_word spell word = Inr (Some (if isupper (hd word) then capitalize c else c))"
  by (simp add: corrected_word_def)

lemma correct_spelling_total:
  assumes "\<forall>w. spell w \<noteq> None"
  shows "\<exists>out. correct_spelling spell text = Inr out"
proof -
  have "\<exists>t. correct_match spell m = Inr t"
    if "m \<in> set (concat (map findall (str_split text)))" for m
  proof -
    obtain p w q where m: "m = (p, w, q)" by (cases m)
    from that m have "w \<noteq> []"
      using findall_shape [of m] by auto
    moreover from assms obtain c where "spell w = Some c" by auto
    ultimately show ?thesis
      by (simp add: correct_match_def m corrected_word_Some)
  qed
  then obtain toks where "correct_words spell (concat (map findall (str_split text))) [] = Inr toks"
    using correct_words_total by blast
  then show ?thesis
    by (simp add: correct_spelling_def correct_segments_matches)
qed

lemma capitalize_word: "list_all is_word c \<Longrightarrow> list_all is_word (capitalize c)"
  by (cases c) (auto simp: list_all_iff is_word_upper is_word_lower)

lemma capitalize_Nil_iff: "capitalize c = [] \<longleftrightarrow> c = []"
  by (cases c) auto

lemma set_join: "set (join sep xs) \<subseteq> set sep \<union> (\<Union>x\<in>set xs. set x)"
  by (induction sep xs rule: join.induct) auto

lemma map_eq_map_Inr_iff:
  "map f ms = map Inr ts \<longleftrightarrow> list_all2 (\<lambda>m t. f m = Inr t) ms ts"
proof (induction ms arbitrary: ts)
  case Nil
  show ?case by auto
next
  case (Cons m ms)
  show ?case by (cases ts) (auto simp: Cons.IH)
qed

lemma is_word_None: "list_all is_word ''None''"
  by (simp add: is_word_def isupper_def islower_def)

lemma correct_match_form:
  assumes "correct_match spell (p, w, q) = Inr t"
  shows "\<exists>v. corrected_word spell w = Inr v \<and> t = p @ str_of v @ q"
  using assms by (auto simp: correct_match_def split: sum.splits)

lemma corrected_word_is_word:
  assumes ok: "\<forall>c. spell w = Some c \<longrightarrow> c \<noteq> [] \<and> list_all is_word c"
    and v: "corrected_word spell w = Inr v"
  shows "str_of v \<noteq> [] \<and> list_all is_word (str_of v)"
proof (cases "spell w")
  case None
  with v have "v = None"
    by (auto simp: corrected_word_def Let_def split: if_splits)
  then show ?thesis using is_word_None by (simp add: str_of_def)
next
  case (Some c)
  with ok have c: "c \<noteq> []" "list_all is_word c" by auto
  from v Some have "v = Some (capitalize c) \<or> v = Some c"
    by (auto simp: corrected_word_def Let_def split: if_splits)
  with c show ?thesis
    by (auto simp: str_of_def capitalize_word capitalize_Nil_iff)
qed

lemma corrected_tokens:
  assumes ms: "list_all2 (\<lambda>m t. correct_match spell m = Inr t) ms ts"
    and ok: "\<forall>m\<in>set ms. \<forall>c. spell (fst (snd m)) = Some c \<longrightarrow> c \<noteq> [] \<and> list_all is_word c"
    and shape: "\<forall>m\<in>set ms. list_all is_punct (fst m) \<and> list_all is_punct (snd (snd m))"
  shows "list_all2 (\<lambda>m t. \<exists>b. t = fst m @ b @ snd (snd m) \<and> b \<noteq> [] \<and> list_all is_word b) ms ts"
  using ms ok shape
proof (induction rule: list_all2_induct)
  case Nil
  show ?case by simp
next
  case (Cons m ms t ts)
  obtain p w q where m: "m = (p, w, q)" by (cases m)
  from Cons.hyps(1) m obtain v where v: "corrected_word spell w = Inr v" "t = p @ str_of v @ q"
    using correct_match_form by blast
  from Cons.prems(1) m have "\<forall>c. spell w = Some c \<longrightarrow> c \<noteq> [] \<and> list_all is_word c"
    by simp
  from corrected_word_is_word [OF this v(1)] v(2) m
  have "\<exists>b. t = fst m @ b @ snd (snd m) \<and> b \<noteq> [] \<and> list_all is_word b" by auto
  with Cons show ?case by simp
qed

section \<open>Spelling correction: capitals\<close>

text \<open>
  C2. A word that starts with an upper-case letter should come out with an upper-case
  first character and with no other character's case changed. The code calls
  \<^verbatim>\<open>capitalize()\<close>, which also lower-cases every character after the first: a checker
  that returns NASA for NASA still yields Nasa.
\<close>

theorem capitalize_changes_other_characters:
  "correct_spelling Some ''NASA'' = Inr ''Nasa'' \<and> tl ''Nasa'' \<noteq> tl ''NASA''"
  by code_simp

text \<open>
  C2, as the code has it. For a word that starts with an upper-case letter and for which
  the checker returns the correction \<open>c\<close>, the output carries \<open>c\<close> capitalized: the first
  character of \<open>c\<close> upper-cased, which is upper-case whenever \<open>c\<close> starts with a letter,
  and every other character of \<open>c\<close> lower-cased.
\<close>

theorem correct_spelling_capitalizes:
  assumes pre: "list_all is_punct pre" and word: "word \<noteq> []" "list_all is_word word"
    and post: "list_all is_punct post"
    and up: "isupper (hd word)" and c: "spell word = Some c"
  shows "correct_spelling spell (pre @ word @ post) = Inr (pre @ capitalize c @ post)
         \<and> (c \<noteq> [] \<longrightarrow> hd (capitalize c) = upper (hd c) \<and> tl (capitalize c) = map lower (tl c))
         \<and> (c \<noteq> [] \<and> (islower (hd c) \<or> isupper (hd c)) \<longrightarrow> isupper (hd (capitalize c)))"
proof -
  have "list_all (\<lambda>c. \<not> isspace c) (pre @ word @ post)"
    using pre word post is_punct_not_isspace is_word_not_isspace
    by (auto simp: list_all_iff)
  moreover have "pre @ word @ post \<noteq> []" using word by simp
  ultimately have seg: "str_split (pre @ word @ post) = [pre @ word @ post]"
    by (simp add: str_split_single)
  have m: "findall (pre @ word @ post) = [(pre, word, post)]"
    using pre word post by (rule findall_token)
  have "correct_match spell (pre, word, post) = Inr (pre @ capitalize c @ post)"
    using word up c by (simp add: correct_match_def corrected_word_Some str_of_def)
  then have "correct_spelling spell (pre @ word @ post) = Inr (pre @ capitalize c @ post)"
    by (simp add: correct_spelling_def seg m)
  moreover have "c \<noteq> [] \<longrightarrow> hd (capitalize c) = upper (hd c) \<and> tl (capitalize c) = map lower (tl c)"
    by (cases c) auto
  moreover have "c \<noteq> [] \<and> (islower (hd c) \<or> isupper (hd c)) \<longrightarrow> isupper (hd (capitalize c))"
    by (cases c) (auto simp: isupper_upper isupper_upper_id)
  ultimately show ?thesis by blast
qed

theorem correct_spelling_capitalizes_witness:
  "list_all is_punct ''!'' \<and> ''Ths'' \<noteq> [] \<and> list_all is_word ''Ths'' \<and> list_all is_punct ''.''
   \<and> isupper (hd ''Ths'') \<and> sample_spell ''Ths'' = Some ''this''
   \<and> correct_spelling sample_spell ''!Ths.'' = Inr ''!This.''
   \<and> isupper (hd (capitalize ''this''))"
proof -
  have h: "list_all is_punct ''!''" "''Ths'' \<noteq> []" "list_all is_word ''Ths''"
    "list_all is_punct ''.''" "isupper (hd ''Ths'')" "sample_spell ''Ths'' = Some ''this''"
    by (simp_all add: is_punct_def is_word_def isupper_def islower_def sample_spell_def)
  have i: "islower CHR ''t''" by (simp add: islower_def)
  have u: "upper CHR ''t'' = CHR ''T''" by code_simp
  have l: "lower CHR ''h'' = CHR ''h''" "lower CHR ''i'' = CHR ''i''" "lower CHR ''s'' = CHR ''s''"
    by (simp_all add: lower_def isupper_def)
  from correct_spelling_capitalizes [of "''!''" "''Ths''" "''.''" sample_spell "''this''", OF h] h i
  show ?thesis
    by (simp add: u l)
qed

section \<open>Spelling correction: punctuation\<close>

lemma corrected_bodies:
  assumes "list_all2 (\<lambda>m t. correct_match spell m = Inr t) ms ts"
  shows "\<exists>vs. map (\<lambda>m. corrected_word spell (fst (snd m))) ms = map Inr vs
              \<and> ts = map (\<lambda>(m, v). fst m @ str_of v @ snd (snd m)) (zip ms vs)"
  using assms
proof (induction rule: list_all2_induct)
  case Nil
  show ?case by simp
next
  case (Cons m ms t ts)
  obtain p w q where m: "m = (p, w, q)" by (cases m)
  from Cons.hyps(1) m obtain v where v: "corrected_word spell w = Inr v" "t = p @ str_of v @ q"
    using correct_match_form by blast
  from Cons.IH obtain vs where
    vs: "map (\<lambda>m. corrected_word spell (fst (snd m))) ms = map Inr vs"
        "ts = map (\<lambda>(m, v). fst m @ str_of v @ snd (snd m)) (zip ms vs)"
    by blast
  from v vs m have
    "map (\<lambda>m. corrected_word spell (fst (snd m))) (m # ms) = map Inr (v # vs)
     \<and> t # ts = map (\<lambda>(m, v). fst m @ str_of v @ snd (snd m)) (zip (m # ms) (v # vs))"
    by simp
  then show ?case by (rule exI [of _ "v # vs"])
qed

lemma findall_tokens:
  assumes "list_all2 (\<lambda>m t. \<exists>b. t = fst m @ b @ snd (snd m) \<and> b \<noteq> [] \<and> list_all is_word b) ms ts"
    and "\<forall>m\<in>set ms. list_all is_punct (fst m) \<and> list_all is_punct (snd (snd m))"
  shows "map (\<lambda>m. (fst m, snd (snd m))) (concat (map findall ts)) = map (\<lambda>m. (fst m, snd (snd m))) ms
         \<and> list_all (\<lambda>x. x \<noteq> [] \<and> list_all (\<lambda>c. \<not> isspace c) x) ts"
  using assms
proof (induction rule: list_all2_induct)
  case Nil
  show ?case by simp
next
  case (Cons m ms t ts)
  from Cons.hyps(1) obtain b where
    b: "t = fst m @ b @ snd (snd m)" "b \<noteq> []" "list_all is_word b" by blast
  from Cons.prems have pq: "list_all is_punct (fst m)" "list_all is_punct (snd (snd m))"
    by simp_all
  have f: "findall t = [(fst m, b, snd (snd m))]"
    unfolding b(1) using pq(1) b(2,3) pq(2) by (rule findall_token)
  have "list_all (\<lambda>c. \<not> isspace c) t"
    using b pq is_punct_not_isspace is_word_not_isspace by (auto simp: list_all_iff)
  moreover have "t \<noteq> []" using b by simp
  ultimately show ?case using Cons f by simp
qed

text \<open>
  C4. For every segment that spelling correction processes, the runs of the marks
  \<^verbatim>\<open>! . , ; ?\<close> before and after the word body are kept as they are: each piece of the
  output is the run before, the corrected word, and the run after, in the order of the
  matches. When the checker returns words, splitting the output again gives the same
  runs.
\<close>

theorem correct_spelling_keeps_punctuation:
  assumes "correct_spelling spell text = Inr out"
  shows "(\<exists>vs. map (\<lambda>m. corrected_word spell (fst (snd m))) (concat (map findall (str_split text)))
                 = map Inr vs
               \<and> out = join '' '' (map (\<lambda>(m, v). fst m @ str_of v @ snd (snd m))
                                     (zip (concat (map findall (str_split text))) vs)))
         \<and> list_all (\<lambda>m. list_all is_punct (fst m) \<and> fst (snd m) \<noteq> []
                          \<and> list_all is_word (fst (snd m)) \<and> list_all is_punct (snd (snd m)))
              (concat (map findall (str_split text)))
         \<and> ((\<forall>w c. spell w = Some c \<longrightarrow> c \<noteq> [] \<and> list_all is_word c) \<longrightarrow>
              map (\<lambda>m. (fst m, snd (snd m))) (concat (map findall (str_split out)))
              = map (\<lambda>m. (fst m, snd (snd m))) (concat (map findall (str_split text))))"
proof -
  let ?ms = "concat (map findall (str_split text))"
  from assms obtain ts where ts: "out = join '' '' ts" "map (correct_match spell) ?ms = map Inr ts"
    using correct_spelling_Inr by blast
  then have l2: "list_all2 (\<lambda>m t. correct_match spell m = Inr t) ?ms ts"
    by (simp add: map_eq_map_Inr_iff)
  have shape: "\<forall>m\<in>set ?ms. list_all is_punct (fst m) \<and> fst (snd m) \<noteq> []
                 \<and> list_all is_word (fst (snd m)) \<and> list_all is_punct (snd (snd m))"
    using findall_shape by auto
  have one: "\<exists>vs. map (\<lambda>m. corrected_word spell (fst (snd m))) ?ms = map Inr vs
               \<and> out = join '' '' (map (\<lambda>(m, v). fst m @ str_of v @ snd (snd m)) (zip ?ms vs))"
    unfolding ts(1) using corrected_bodies [OF l2] by (elim exE conjE) (rule exI, simp)
  have two: "list_all (\<lambda>m. list_all is_punct (fst m) \<and> fst (snd m) \<noteq> []
                          \<and> list_all is_word (fst (snd m)) \<and> list_all is_punct (snd (snd m))) ?ms"
    using shape by (simp add: list_all_iff)
  have three: "map (\<lambda>m. (fst m, snd (snd m))) (concat (map findall (str_split out)))
               = map (\<lambda>m. (fst m, snd (snd m))) ?ms"
    if ok: "\<forall>w c. spell w = Some c \<longrightarrow> c \<noteq> [] \<and> list_all is_word c"
  proof -
    have pq: "\<forall>m\<in>set ?ms. list_all is_punct (fst m) \<and> list_all is_punct (snd (snd m))"
      using shape by blast
    from ok have here: "\<forall>m\<in>set ?ms. \<forall>c. spell (fst (snd m)) = Some c \<longrightarrow> c \<noteq> [] \<and> list_all is_word c"
      by blast
    note toks = findall_tokens [OF corrected_tokens [OF l2 here pq] pq]
    from toks have "str_split out = ts"
      unfolding ts(1) by (simp add: str_split_join)
    with toks show ?thesis by simp
  qed
  from one two three show ?thesis by blast
qed

theorem correct_spelling_keeps_punctuation_witness:
  "correct_spelling sample_spell ''Ths is,  a ..tst.'' = Inr ''This is, a ..test.''
   \<and> map (\<lambda>m. (fst m, snd (snd m))) (concat (map findall (str_split ''This is, a ..test.'')))
     = map (\<lambda>m. (fst m, snd (snd m))) (concat (map findall (str_split ''Ths is,  a ..tst.'')))"
proof -
  have h: "correct_spelling sample_spell ''Ths is,  a ..tst.'' = Inr ''This is, a ..test.''"
    by code_simp
  have ok: "\<forall>w c. sample_spell w = Some c \<longrightarrow> c \<noteq> [] \<and> list_all is_word c"
    by (auto simp: sample_spell_def is_word_def islower_def split: if_splits)
  from correct_spelling_keeps_punctuation [OF h] ok h show ?thesis by blast
qed

section \<open>Spelling correction: what the output is made of\<close>

lemma findall_filter_words:
  "concat (map findall (filter (list_ex is_word) segs)) = concat (map findall segs)"
  by (induction segs) (simp_all add: findall_no_word)

lemma str_split_filter_join:
  "str_split (join '' '' (filter P (str_split text))) = filter P (str_split text)"
proof (rule str_split_join)
  show "list_all (\<lambda>x. x \<noteq> [] \<and> list_all (\<lambda>c. \<not> isspace c) x) (filter P (str_split text))"
    using str_split_segments by (auto simp: list_all_iff)
qed

lemma token_characters:
  assumes "list_all2 (\<lambda>m t. \<exists>b. t = fst m @ b @ snd (snd m) \<and> b \<noteq> [] \<and> list_all is_word b) ms ts"
    and "\<forall>m\<in>set ms. list_all is_punct (fst m) \<and> list_all is_punct (snd (snd m))"
  shows "\<forall>t\<in>set ts. \<forall>c\<in>set t. is_word c \<or> is_punct c"
  using assms
proof (induction rule: list_all2_induct)
  case Nil
  show ?case by simp
next
  case (Cons m ms t ts)
  from Cons.hyps(1) obtain b where
    b: "t = fst m @ b @ snd (snd m)" "list_all is_word b" by blast
  from Cons.prems have "list_all is_punct (fst m)" "list_all is_punct (snd (snd m))"
    by simp_all
  with b have "\<forall>c\<in>set t. is_word c \<or> is_punct c"
    by (auto simp: list_all_iff)
  with Cons show ?case by simp
qed

text \<open>
  C9. The output of spelling correction should hold only word characters, the marks
  \<^verbatim>\<open>! . , ; ?\<close> and single spaces. The corrected word is what the checker returns, and
  the code writes it out unexamined: a checker that corrects dont to the contraction
  puts an apostrophe into the output.
\<close>

theorem correct_spelling_writes_apostrophe:
  "correct_spelling contraction_spell ''dont'' = Inr ''don't''
   \<and> \<not> is_word CHR 0x27 \<and> \<not> is_punct CHR 0x27 \<and> CHR 0x27 \<noteq> CHR '' ''"
  by code_simp

text \<open>
  C9, as the code has it. Take any input text for which spelling correction returns.
  The segments of the input without a word character leave no trace, whatever the
  checker does: the text without them has the same output. And when each correction
  that the checker returns for a word of this text is one or more word characters, the
  output holds only word characters, the marks \<^verbatim>\<open>! . , ; ?\<close> and spaces, and its
  pieces are separated by one space each with none at either end.
\<close>

theorem correct_spelling_output_characters:
  assumes out: "correct_spelling spell text = Inr out"
  shows "correct_spelling spell (join '' '' (filter (list_ex is_word) (str_split text))) = Inr out
         \<and> ((\<forall>m\<in>set (concat (map findall (str_split text))).
                \<forall>c. spell (fst (snd m)) = Some c \<longrightarrow> c \<noteq> [] \<and> list_all is_word c) \<longrightarrow>
              list_all (\<lambda>c. is_word c \<or> is_punct c \<or> c = CHR '' '') out
              \<and> join '' '' (str_split out) = out)"
proof -
  let ?ms = "concat (map findall (str_split text))"
  from out obtain ts where ts: "out = join '' '' ts" "map (correct_match spell) ?ms = map Inr ts"
    using correct_spelling_Inr by blast
  then have l2: "list_all2 (\<lambda>m t. correct_match spell m = Inr t) ?ms ts"
    by (simp add: map_eq_map_Inr_iff)
  have pq: "\<forall>m\<in>set ?ms. list_all is_punct (fst m) \<and> list_all is_punct (snd (snd m))"
    using findall_shape by auto
  have dropped: "correct_spelling spell (join '' '' (filter (list_ex is_word) (str_split text))) = Inr out"
    using out
    by (simp add: correct_spelling_def correct_segments_matches str_split_filter_join
          findall_filter_words)
  have made: "list_all (\<lambda>c. is_word c \<or> is_punct c \<or> c = CHR '' '') out
              \<and> join '' '' (str_split out) = out"
    if ok: "\<forall>m\<in>set ?ms. \<forall>c. spell (fst (snd m)) = Some c \<longrightarrow> c \<noteq> [] \<and> list_all is_word c"
  proof -
    note form = corrected_tokens [OF l2 ok pq]
    note chars = token_characters [OF form pq]
    have one: "list_all (\<lambda>c. is_word c \<or> is_punct c \<or> c = CHR '' '') out"
      unfolding ts(1) list_all_iff using set_join [of "'' ''" ts] chars by auto
    have "list_all (\<lambda>x. x \<noteq> [] \<and> list_all (\<lambda>c. \<not> isspace c) x) ts"
      using findall_tokens [OF form pq] by simp
    then have two: "join '' '' (str_split out) = out"
      unfolding ts(1) by (simp add: str_split_join)
    from one two show ?thesis by (rule conjI)
  qed
  from dropped made show ?thesis by blast
qed

theorem correct_spelling_output_characters_witness:
  "correct_spelling mixed_spell ''Ths (is) -- 'a' ?! [tst.]'' = Inr ''This is a test.''
   \<and> mixed_spell ''dont'' = Some ''don't''
   \<and> correct_spelling mixed_spell
        (join '' '' (filter (list_ex is_word) (str_split ''Ths (is) -- 'a' ?! [tst.]'')))
       = Inr ''This is a test.''
   \<and> list_all (\<lambda>c. is_word c \<or> is_punct c \<or> c = CHR '' '') ''This is a test.''
   \<and> join '' '' (str_split ''This is a test.'') = ''This is a test.''"
proof -
  have h: "correct_spelling mixed_spell ''Ths (is) -- 'a' ?! [tst.]'' = Inr ''This is a test.''"
    by code_simp
  have d: "mixed_spell ''dont'' = Some ''don't''"
    by (simp add: mixed_spell_def)
  have ms: "concat (map findall (str_split ''Ths (is) -- 'a' ?! [tst.]''))
              = [([], ''Ths'', []), ([], ''is'', []), ([], ''a'', []), ([], ''tst'', ''.'')]"
    by code_simp
  have ok: "\<forall>m\<in>set (concat (map findall (str_split ''Ths (is) -- 'a' ?! [tst.]''))).
              \<forall>c. mixed_spell (fst (snd m)) = Some c \<longrightarrow> c \<noteq> [] \<and> list_all is_word c"
    unfolding ms by (simp add: mixed_spell_def is_word_def islower_def)
  from correct_spelling_output_characters [OF h] ok h d show ?thesis by blast
qed

section \<open>Facts about paraphrasing\<close>

lemma synonyms_of_set: "set (synonyms_of synsets word) = set (concat (synsets word))"
  by (simp add: synonyms_of_def)

lemma synonyms_of_length: "length (synonyms_of synsets word) = card (set (concat (synsets word)))"
  by (simp add: synonyms_of_def length_remdups_card_conv)

lemma others_distinct: "distinct (removeAll word (synonyms_of synsets word))"
  by (simp add: synonyms_of_def distinct_removeAll)

lemma others_set:
  "set (removeAll word (synonyms_of synsets word)) = set (concat (synsets word)) - {word}"
  by (simp add: synonyms_of_set)

lemma others_length:
  "length (removeAll word (synonyms_of synsets word)) = card (set (concat (synsets word)) - {word})"
  using distinct_card [OF others_distinct [of word synsets]] unfolding others_set by (rule sym)

lemma others_nonempty:
  assumes "1 < card (set (concat (synsets word)))"
  shows "removeAll word (synonyms_of synsets word) \<noteq> []"
proof
  assume "removeAll word (synonyms_of synsets word) = []"
  then have "set (concat (synsets word)) - {word} = {}"
    using others_set [of word synsets] by simp
  then have "set (concat (synsets word)) \<subseteq> {word}" by blast
  then have "card (set (concat (synsets word))) \<le> card {word}"
    by (intro card_mono) simp_all
  with assms show False by simp
qed

lemma paraphrase_token_other:
  "pos \<noteq> ''JJ'' \<Longrightarrow> paraphrase_token synsets rnd (word, pos) k = Inr (word, k)"
  by (simp add: paraphrase_token_def)

lemma paraphrase_token_few:
  "\<not> 1 < card (set (concat (synsets word))) \<Longrightarrow>
   paraphrase_token synsets rnd (word, pos) k = Inr (word, k)"
  by (simp add: paraphrase_token_def synonyms_of_length Let_def)

lemma paraphrase_token_choice:
  assumes "pos = ''JJ''" "1 < card (set (concat (synsets word)))"
  shows "paraphrase_token synsets rnd (word, pos) k =
           Inr (removeAll word (synonyms_of synsets word)
                  ! (rnd k mod length (removeAll word (synonyms_of synsets word))), Suc k)"
  using assms others_nonempty [of synsets word]
  by (simp add: paraphrase_token_def synonyms_of_length random_choice_def Let_def)

lemma paraphrase_token_result:
  "\<exists>w k'. paraphrase_token synsets rnd (word, pos) k = Inr (w, k')
          \<and> (pos \<noteq> ''JJ'' \<longrightarrow> w = word)
          \<and> (w \<noteq> word \<longrightarrow> pos = ''JJ'' \<and> w \<in> set (concat (synsets word)) - {word})"
proof (cases "pos = ''JJ'' \<and> 1 < card (set (concat (synsets word)))")
  case True
  let ?xs = "removeAll word (synonyms_of synsets word)"
  from True have ne: "?xs \<noteq> []" by (simp add: others_nonempty)
  then have "rnd k mod length ?xs < length ?xs" by simp
  then have "?xs ! (rnd k mod length ?xs) \<in> set ?xs" by (rule nth_mem)
  then have "?xs ! (rnd k mod length ?xs) \<in> set (concat (synsets word)) - {word}"
    unfolding others_set .
  with True show ?thesis by (simp add: paraphrase_token_choice)
next
  case False
  then have "paraphrase_token synsets rnd (word, pos) k = Inr (word, k)"
    using paraphrase_token_other [of pos synsets rnd word k]
      paraphrase_token_few [of synsets word rnd pos k] by (cases "pos = ''JJ''") simp_all
  then show ?thesis by simp
qed

lemma paraphrase_words_result:
  "\<exists>out. paraphrase_words synsets rnd ts k acc = Inr (acc @ out) \<and> length out = length ts
         \<and> (\<forall>i<length ts.
               (snd (ts ! i) \<noteq> ''JJ'' \<longrightarrow> out ! i = fst (ts ! i))
               \<and> (out ! i \<noteq> fst (ts ! i) \<longrightarrow>
                    snd (ts ! i) = ''JJ''
                    \<and> out ! i \<in> set (concat (synsets (fst (ts ! i)))) - {fst (ts ! i)}))"
proof (induction ts arbitrary: k acc)
  case Nil
  show ?case by simp
next
  case (Cons t ts)
  obtain word pos where t: "t = (word, pos)" by (cases t)
  obtain w k' where
    w: "paraphrase_token synsets rnd (word, pos) k = Inr (w, k')"
       "pos \<noteq> ''JJ'' \<longrightarrow> w = word"
       "w \<noteq> word \<longrightarrow> pos = ''JJ'' \<and> w \<in> set (concat (synsets word)) - {word}"
    using paraphrase_token_result [of synsets rnd word pos k] by (elim exE conjE)
  from Cons.IH [of k' "acc @ [w]"] obtain out where
    out: "paraphrase_words synsets rnd ts k' (acc @ [w]) = Inr ((acc @ [w]) @ out)"
         "length out = length ts"
         "\<forall>i<length ts.
               (snd (ts ! i) \<noteq> ''JJ'' \<longrightarrow> out ! i = fst (ts ! i))
               \<and> (out ! i \<noteq> fst (ts ! i) \<longrightarrow>
                    snd (ts ! i) = ''JJ''
                    \<and> out ! i \<in> set (concat (synsets (fst (ts ! i)))) - {fst (ts ! i)})"
    by (elim exE conjE)
  have "paraphrase_words synsets rnd (t # ts) k acc = Inr (acc @ (w # out))"
    using w(1) out(1) t by simp
  moreover have "length (w # out) = length (t # ts)" using out(2) by simp
  moreover have "\<forall>i<length (t # ts).
               (snd ((t # ts) ! i) \<noteq> ''JJ'' \<longrightarrow> (w # out) ! i = fst ((t # ts) ! i))
               \<and> ((w # out) ! i \<noteq> fst ((t # ts) ! i) \<longrightarrow>
                    snd ((t # ts) ! i) = ''JJ''
                    \<and> (w # out) ! i \<in> set (concat (synsets (fst ((t # ts) ! i)))) - {fst ((t # ts) ! i)})"
  proof (intro allI impI)
    fix i assume "i < length (t # ts)"
    then show "(snd ((t # ts) ! i) \<noteq> ''JJ'' \<longrightarrow> (w # out) ! i = fst ((t # ts) ! i))
               \<and> ((w # out) ! i \<noteq> fst ((t # ts) ! i) \<longrightarrow>
                    snd ((t # ts) ! i) = ''JJ''
                    \<and> (w # out) ! i \<in> set (concat (synsets (fst ((t # ts) ! i)))) - {fst ((t # ts) ! i)})"
      using w(2,3) out(3) t by (cases i) simp_all
  qed
  ultimately show ?case by (intro exI [of _ "w # out"] conjI)
qed

lemma paraphrase_sentence_total:
  "\<exists>paraphrased. paraphrase_sentence tagger synsets rnd sentence = Inr paraphrased"
proof -
  from paraphrase_words_result [of synsets rnd "tagger sentence" 0 "[]"] obtain out where
    "paraphrase_words synsets rnd (tagger sentence) 0 [] = Inr ([] @ out)"
    by (elim exE conjE)
  then show ?thesis by (simp add: paraphrase_sentence_def)
qed

lemma re_sub_drops_whitespace_only:
  "filter (\<lambda>c. \<not> isspace c) (re_sub s) = filter (\<lambda>c. \<not> isspace c) s"
  by (induction s rule: re_sub.induct) simp_all

lemma filter_join_space:
  "filter (\<lambda>c. \<not> isspace c) (join '' '' ws) = concat (map (filter (\<lambda>c. \<not> isspace c)) ws)"
  by (induction "'' ''" ws rule: join.induct) (simp_all add: isspace_def)

section \<open>Paraphrasing: when an adjective is replaced\<close>

text \<open>
  C3. An adjective should be replaced exactly when more than one synonym is left after
  the original word is taken out. The code counts the synonyms before it takes the
  original word out: with the two synonyms big and large for big, a single one is left,
  and the code replaces the word all the same.
\<close>

theorem paraphrase_replaces_with_single_synonym:
  "paraphrase_token sample_synsets id (''big'', ''JJ'') 0 = Inr (''large'', 1)
   \<and> removeAll ''big'' (synonyms_of sample_synsets ''big'') = [''large'']"
  by code_simp

text \<open>
  C3, as the code has it. For a token tagged as an adjective, the token is replaced if
  and only if its synonym set has more than one member before the original word is
  taken out; the replacement is then a member of the set without the original word,
  which \<^verbatim>\<open>random.choice\<close> draws: each member is the outcome of exactly one of the
  equally many draws. Otherwise the original token is kept.
\<close>

theorem paraphrase_token_adjective:
  assumes "pos = ''JJ''"
  shows "\<exists>w k'. paraphrase_token synsets rnd (word, pos) k = Inr (w, k')
           \<and> (w \<noteq> word \<longleftrightarrow> 1 < card (set (concat (synsets word))))
           \<and> (w \<noteq> word \<longrightarrow> w \<in> set (concat (synsets word)) - {word})
           \<and> (1 < card (set (concat (synsets word))) \<longrightarrow>
                (\<forall>m\<in>set (concat (synsets word)) - {word}.
                   \<exists>!i. i < card (set (concat (synsets word)) - {word})
                        \<and> paraphrase_token synsets (\<lambda>n. i) (word, pos) k = Inr (m, Suc k)))"
proof (cases "1 < card (set (concat (synsets word)))")
  case False
  then have "paraphrase_token synsets rnd (word, pos) k = Inr (word, k)"
    by (rule paraphrase_token_few)
  with False show ?thesis by simp
next
  case True
  let ?xs = "removeAll word (synonyms_of synsets word)"
  let ?S = "set (concat (synsets word)) - {word}"
  have ne: "?xs \<noteq> []" using True by (rule others_nonempty)
  have len: "length ?xs = card ?S" by (rule others_length)
  have set: "set ?xs = ?S" by (rule others_set)
  have dist: "distinct ?xs" by (rule others_distinct)
  have tok: "paraphrase_token synsets r (word, pos) k = Inr (?xs ! (r k mod length ?xs), Suc k)" for r
    using assms True by (rule paraphrase_token_choice)
  from ne have "rnd k mod length ?xs < length ?xs" by simp
  then have "?xs ! (rnd k mod length ?xs) \<in> set ?xs" by (rule nth_mem)
  then have mem: "?xs ! (rnd k mod length ?xs) \<in> ?S" unfolding set .
  have each': "\<exists>!i. i < length ?xs \<and> paraphrase_token synsets (\<lambda>n. i) (word, pos) k = Inr (m, Suc k)"
    if "m \<in> set ?xs" for m
  proof -
    from dist that have "\<exists>!i. i < length ?xs \<and> ?xs ! i = m" by (rule distinct_Ex1)
    then obtain i where i: "i < length ?xs" "?xs ! i = m"
      and uniq: "\<And>j. j < length ?xs \<Longrightarrow> ?xs ! j = m \<Longrightarrow> j = i"
      by blast
    show ?thesis
    proof (rule ex1I [of _ i])
      from i(1) have "i mod length ?xs = i" by (rule mod_less)
      with i show "i < length ?xs \<and> paraphrase_token synsets (\<lambda>n. i) (word, pos) k = Inr (m, Suc k)"
        unfolding tok by simp
    next
      fix j
      assume j: "j < length ?xs \<and> paraphrase_token synsets (\<lambda>n. j) (word, pos) k = Inr (m, Suc k)"
      then have "j mod length ?xs = j" by simp
      with j have "j < length ?xs" "?xs ! j = m"
        unfolding tok by simp_all
      then show "j = i" by (rule uniq)
    qed
  qed
  have each: "\<forall>m\<in>?S. \<exists>!i. i < card ?S \<and> paraphrase_token synsets (\<lambda>n. i) (word, pos) k = Inr (m, Suc k)"
    using each' unfolding len set by blast
  have "paraphrase_token synsets rnd (word, pos) k = Inr (?xs ! (rnd k mod length ?xs), Suc k)"
    by (rule tok)
  moreover have "?xs ! (rnd k mod length ?xs) \<noteq> word" using mem by blast
  ultimately show ?thesis using True mem each by (intro exI conjI) (assumption | simp | blast)+
qed

theorem paraphrase_token_adjective_witness:
  "(\<exists>w k'. paraphrase_token sample_synsets id (''red'', ''JJ'') 0 = Inr (w, k')
            \<and> w \<noteq> ''red'' \<and> w \<in> set (concat (sample_synsets ''red'')) - {''red''})
   \<and> (\<exists>!i. i < 3 \<and> paraphrase_token sample_synsets (\<lambda>n. i) (''red'', ''JJ'') 0 = Inr (''crimson'', 1))"
proof -
  have c: "1 < card (set (concat (sample_synsets ''red'')))" by code_simp
  have n: "card (set (concat (sample_synsets ''red'')) - {''red''}) = 3" by code_simp
  have m: "''crimson'' \<in> set (concat (sample_synsets ''red'')) - {''red''}" by code_simp
  from paraphrase_token_adjective [of "''JJ''" sample_synsets id "''red''" 0, OF refl]
  obtain w k' where
    1: "paraphrase_token sample_synsets id (''red'', ''JJ'') 0 = Inr (w, k')"
    and 2: "w \<noteq> ''red'' \<longleftrightarrow> 1 < card (set (concat (sample_synsets ''red'')))"
    and 3: "w \<noteq> ''red'' \<longrightarrow> w \<in> set (concat (sample_synsets ''red'')) - {''red''}"
    and 4: "1 < card (set (concat (sample_synsets ''red''))) \<longrightarrow>
              (\<forall>m\<in>set (concat (sample_synsets ''red'')) - {''red''}.
                 \<exists>!i. i < card (set (concat (sample_synsets ''red'')) - {''red''})
                      \<and> paraphrase_token sample_synsets (\<lambda>n. i) (''red'', ''JJ'') 0 = Inr (m, Suc 0))"
    by (elim exE conjE)
  from 2 c have w: "w \<noteq> ''red''" by (rule iffD2)
  with 3 have "w \<in> set (concat (sample_synsets ''red'')) - {''red''}" by (rule mp)
  with 1 w have a: "\<exists>w k'. paraphrase_token sample_synsets id (''red'', ''JJ'') 0 = Inr (w, k')
            \<and> w \<noteq> ''red'' \<and> w \<in> set (concat (sample_synsets ''red'')) - {''red''}"
    by (intro exI conjI)
  from 4 c have "\<forall>m\<in>set (concat (sample_synsets ''red'')) - {''red''}.
                 \<exists>!i. i < card (set (concat (sample_synsets ''red'')) - {''red''})
                      \<and> paraphrase_token sample_synsets (\<lambda>n. i) (''red'', ''JJ'') 0 = Inr (m, Suc 0)"
    by (rule mp)
  from bspec [OF this m] have
    b: "\<exists>!i. i < 3 \<and> paraphrase_token sample_synsets (\<lambda>n. i) (''red'', ''JJ'') 0 = Inr (''crimson'', 1)"
    unfolding n by simp
  from a b show ?thesis by (rule conjI)
qed

section \<open>Paraphrasing: the tokens of the sentence\<close>

text \<open>
  C5. For every sentence and every token of it whose tag is not \<^verbatim>\<open>JJ\<close>, paraphrasing
  passes the token through unchanged: the word appended for it is the token itself, for
  every outcome of the random draws, and the pass that formats the joined words removes
  whitespace only.
\<close>

theorem paraphrase_keeps_other_tokens:
  "\<exists>out. paraphrase_words synsets rnd (tagger s) 0 [] = Inr out
         \<and> paraphrase_sentence tagger synsets rnd s = Inr (re_sub (join '' '' out))
         \<and> length out = length (tagger s)
         \<and> (\<forall>i<length (tagger s). snd (tagger s ! i) \<noteq> ''JJ'' \<longrightarrow> out ! i = fst (tagger s ! i))
         \<and> filter (\<lambda>c. \<not> isspace c) (re_sub (join '' '' out))
           = concat (map (filter (\<lambda>c. \<not> isspace c)) out)"
proof -
  from paraphrase_words_result [of synsets rnd "tagger s" 0 "[]"] obtain out where
    out: "paraphrase_words synsets rnd (tagger s) 0 [] = Inr ([] @ out)"
         "length out = length (tagger s)"
    and each: "\<forall>i<length (tagger s).
               (snd (tagger s ! i) \<noteq> ''JJ'' \<longrightarrow> out ! i = fst (tagger s ! i))
               \<and> (out ! i \<noteq> fst (tagger s ! i) \<longrightarrow>
                    snd (tagger s ! i) = ''JJ''
                    \<and> out ! i \<in> set (concat (synsets (fst (tagger s ! i)))) - {fst (tagger s ! i)})"
    by (elim exE conjE)
  from out(1) have pw: "paraphrase_words synsets rnd (tagger s) 0 [] = Inr out" by simp
  then have ps: "paraphrase_sentence tagger synsets rnd s = Inr (re_sub (join '' '' out))"
    by (simp add: paraphrase_sentence_def)
  from each have keep:
    "\<forall>i<length (tagger s). snd (tagger s ! i) \<noteq> ''JJ'' \<longrightarrow> out ! i = fst (tagger s ! i)"
    by blast
  have fmt: "filter (\<lambda>c. \<not> isspace c) (re_sub (join '' '' out))
             = concat (map (filter (\<lambda>c. \<not> isspace c)) out)"
    by (simp only: re_sub_drops_whitespace_only filter_join_space)
  from pw ps out(2) keep fmt show ?thesis by (intro exI [of _ out] conjI)
qed

theorem paraphrase_keeps_other_tokens_witness:
  "\<exists>out. paraphrase_sentence sample_tagger sample_synsets id ''a big red dog.''
            = Inr (re_sub (join '' '' out))
         \<and> length out = 5 \<and> out ! 0 = ''a'' \<and> out ! 3 = ''dog'' \<and> out ! 4 = ''.''"
proof -
  have t: "sample_tagger ''a big red dog.'' =
             [(''a'', ''DT''), (''big'', ''JJ''), (''red'', ''JJ''), (''dog'', ''NN''), (''.'', ''.'')]"
    by (simp add: sample_tagger_def)
  from paraphrase_keeps_other_tokens [of sample_synsets id sample_tagger "''a big red dog.''"]
  obtain out where
    ps: "paraphrase_sentence sample_tagger sample_synsets id ''a big red dog.''
           = Inr (re_sub (join '' '' out))"
    and len: "length out = length (sample_tagger ''a big red dog.'')"
    and keep: "\<forall>i<length (sample_tagger ''a big red dog.'').
                 snd (sample_tagger ''a big red dog.'' ! i) \<noteq> ''JJ''
                 \<longrightarrow> out ! i = fst (sample_tagger ''a big red dog.'' ! i)"
    by (elim exE conjE)
  from keep [THEN spec, of 0] keep [THEN spec, of 3] keep [THEN spec, of 4]
  have "out ! 0 = ''a''" "out ! 3 = ''dog''" "out ! 4 = ''.''"
    unfolding t by simp_all
  with ps len show ?thesis unfolding t by (intro exI [of _ out]) simp
qed

text \<open>
  C6. For every sentence and every outcome of the random draws, a token that
  paraphrasing alters is tagged as an adjective, and what replaces it is a member of
  the adjective synonym set of the original token other than the original word.
\<close>

theorem paraphrase_alters_within_synonyms:
  "\<exists>out. paraphrase_words synsets rnd (tagger s) 0 [] = Inr out
         \<and> paraphrase_sentence tagger synsets rnd s = Inr (re_sub (join '' '' out))
         \<and> length out = length (tagger s)
         \<and> (\<forall>i<length (tagger s).
               out ! i \<noteq> fst (tagger s ! i) \<longrightarrow>
                 snd (tagger s ! i) = ''JJ''
                 \<and> out ! i \<in> set (concat (synsets (fst (tagger s ! i)))) - {fst (tagger s ! i)})"
proof -
  from paraphrase_words_result [of synsets rnd "tagger s" 0 "[]"] obtain out where
    out: "paraphrase_words synsets rnd (tagger s) 0 [] = Inr ([] @ out)"
         "length out = length (tagger s)"
    and each: "\<forall>i<length (tagger s).
               (snd (tagger s ! i) \<noteq> ''JJ'' \<longrightarrow> out ! i = fst (tagger s ! i))
               \<and> (out ! i \<noteq> fst (tagger s ! i) \<longrightarrow>
                    snd (tagger s ! i) = ''JJ''
                    \<and> out ! i \<in> set (concat (synsets (fst (tagger s ! i)))) - {fst (tagger s ! i)})"
    by (elim exE conjE)
  from out(1) have pw: "paraphrase_words synsets rnd (tagger s) 0 [] = Inr out" by simp
  then have ps: "paraphrase_sentence tagger synsets rnd s = Inr (re_sub (join '' '' out))"
    by (simp add: paraphrase_sentence_def)
  from each have alt:
    "\<forall>i<length (tagger s).
               out ! i \<noteq> fst (tagger s ! i) \<longrightarrow>
                 snd (tagger s ! i) = ''JJ''
                 \<and> out ! i \<in> set (concat (synsets (fst (tagger s ! i)))) - {fst (tagger s ! i)}"
    by blast
  from pw ps out(2) alt show ?thesis by (intro exI [of _ out] conjI)
qed

theorem paraphrase_alters_within_synonyms_witness:
  "paraphrase_sentence sample_tagger sample_synsets id ''a big red dog.''
     = Inr ''a large crimson dog.''
   \<and> ''large'' \<in> set (concat (sample_synsets ''big'')) - {''big''}
   \<and> ''crimson'' \<in> set (concat (sample_synsets ''red'')) - {''red''}"
proof -
  have t: "sample_tagger ''a big red dog.'' =
             [(''a'', ''DT''), (''big'', ''JJ''), (''red'', ''JJ''), (''dog'', ''NN''), (''.'', ''.'')]"
    by (simp add: sample_tagger_def)
  have run: "paraphrase_words sample_synsets id (sample_tagger ''a big red dog.'') 0 []
               = Inr [''a'', ''large'', ''crimson'', ''dog'', ''.'']"
    by code_simp
  have fmt: "re_sub (join '' '' [''a'', ''large'', ''crimson'', ''dog'', ''.''])
               = ''a large crimson dog.''"
    by code_simp
  from paraphrase_alters_within_synonyms [of sample_synsets id sample_tagger "''a big red dog.''"]
  obtain out where
    pw: "paraphrase_words sample_synsets id (sample_tagger ''a big red dog.'') 0 [] = Inr out"
    and ps: "paraphrase_sentence sample_tagger sample_synsets id ''a big red dog.''
           = Inr (re_sub (join '' '' out))"
    and alt: "\<forall>i<length (sample_tagger ''a big red dog.'').
               out ! i \<noteq> fst (sample_tagger ''a big red dog.'' ! i) \<longrightarrow>
                 snd (sample_tagger ''a big red dog.'' ! i) = ''JJ''
                 \<and> out ! i \<in> set (concat (sample_synsets (fst (sample_tagger ''a big red dog.'' ! i))))
                             - {fst (sample_tagger ''a big red dog.'' ! i)}"
    by (elim exE conjE)
  from pw run have o: "out = [''a'', ''large'', ''crimson'', ''dog'', ''.'']" by simp
  from alt [THEN spec, of 1] alt [THEN spec, of 2]
  have "out ! 1 \<noteq> ''big'' \<longrightarrow> out ! 1 \<in> set (concat (sample_synsets ''big'')) - {''big''}"
    and "out ! 2 \<noteq> ''red'' \<longrightarrow> out ! 2 \<in> set (concat (sample_synsets ''red'')) - {''red''}"
    unfolding t by simp_all
  then have "''large'' \<in> set (concat (sample_synsets ''big'')) - {''big''}"
    and "''crimson'' \<in> set (concat (sample_synsets ''red'')) - {''red''}"
    unfolding o by simp_all
  moreover from ps have "paraphrase_sentence sample_tagger sample_synsets id ''a big red dog.''
     = Inr ''a large crimson dog.''"
    unfolding o fmt .
  ultimately show ?thesis by (intro conjI)
qed


section \<open>Facts about the displays\<close>

lemma insert_words_runs:
  "runs (insert_words zs w) =
     runs w @ map (\<lambda>(orig, para, corr). (para @ '' '', if para \<noteq> corr then [''changed''] else [])) zs"
  by (induction zs w rule: insert_words.induct) (simp_all add: insert_end_def)

lemma insert_words_sel: "sel (insert_words zs w) = sel w"
  by (induction zs w rule: insert_words.induct) (simp_all add: insert_end_def)

lemma zip3_middle:
  "map (\<lambda>(orig, para, corr). para) (zip xs (zip ys zs))
     = take (min (length xs) (min (length ys) (length zs))) ys"
proof (induction xs arbitrary: ys zs)
  case Nil
  show ?case by simp
next
  case (Cons x xs)
  show ?case
  proof (cases ys)
    case Nil
    then show ?thesis by simp
  next
    case ys: (Cons y ys')
    show ?thesis
    proof (cases zs)
      case Nil
      then show ?thesis by simp
    next
      case zs: (Cons z zs')
      show ?thesis by (simp add: ys zs Cons.IH)
    qed
  qed
qed

lemma update_paraphrase_selection:
  assumes "sel (corrected_text_widget a) = Some (i, j)"
    and "paraphrase_sentence tagger synsets rnd (get (corrected_text_widget a) i j) = Inr paraphrased"
    and "correct_spelling spell (get (corrected_text_widget a) i j) = Inr corrected"
  shows "update_paraphrase spell tagger synsets rnd a =
           (None,
            a\<lparr>paraphrase_text_widget :=
                tag_add_all
                  (tag_configure
                     (insert_end
                        (insert_words
                           (zip (str_split (get (corrected_text_widget a) i j))
                              (zip (str_split paraphrased) (str_split corrected)))
                           (insert_end (delete_all (paraphrase_text_widget a))
                              (get (corrected_text_widget a) 0 i) []))
                        (get (corrected_text_widget a) j (END (corrected_text_widget a))) [])
                     ''changed'' ''italic, yellow background'')
                  ''selectable''\<rparr>)"
  using assms by (simp add: update_paraphrase_def Let_def)

lemma update_paraphrase_runs:
  assumes "sel (corrected_text_widget a) = Some (i, j)"
    and "paraphrase_sentence tagger synsets rnd (get (corrected_text_widget a) i j) = Inr paraphrased"
    and "correct_spelling spell (get (corrected_text_widget a) i j) = Inr corrected"
  shows "\<exists>a'. update_paraphrase spell tagger synsets rnd a = (None, a')
          \<and> runs (paraphrase_text_widget a') =
              (get (corrected_text_widget a) 0 i, [''selectable''])
              # map (\<lambda>(orig, para, corr).
                       (para @ '' '',
                        if para \<noteq> corr then [''changed'', ''selectable''] else [''selectable'']))
                  (zip (str_split (get (corrected_text_widget a) i j))
                     (zip (str_split paraphrased) (str_split corrected)))
              @ [(get (corrected_text_widget a) j (END (corrected_text_widget a)), [''selectable''])]"
  unfolding update_paraphrase_selection [OF assms]
  by (rule exI, rule conjI, rule refl)
     (simp add: tag_add_all_def tag_configure_def insert_end_def insert_words_runs delete_all_def
        case_prod_unfold)

section \<open>The paraphrase action\<close>

text \<open>
  C7. In the paraphrase action the words of the selected text, of its paraphrase and of
  its correction are taken together position by position, and the loop stops with the
  shortest of the three lists: the middle section of the paraphrased display holds the
  first \<open>n\<close> paraphrased words, each followed by a space, where \<open>n\<close> is the least of the
  three lengths, and the \<open>k\<close>-th of them is marked as changed exactly when it differs
  from the \<open>k\<close>-th corrected word. The words beyond \<open>n\<close> appear nowhere.
\<close>

theorem update_paraphrase_drops_trailing_words:
  assumes s: "sel (corrected_text_widget a) = Some (i, j)"
    and p: "paraphrase_sentence tagger synsets rnd (get (corrected_text_widget a) i j) = Inr paraphrased"
    and c: "correct_spelling spell (get (corrected_text_widget a) i j) = Inr corrected"
    and wo: "words_original = str_split (get (corrected_text_widget a) i j)"
    and wp: "words_paraphrased = str_split paraphrased"
    and wc: "words_corrected = str_split corrected"
    and n: "n = min (length words_original) (min (length words_paraphrased) (length words_corrected))"
  shows "\<exists>a'. update_paraphrase spell tagger synsets rnd a = (None, a')
          \<and> map fst (runs (paraphrase_text_widget a')) =
              get (corrected_text_widget a) 0 i
              # map (\<lambda>w. w @ '' '') (take n words_paraphrased)
              @ [get (corrected_text_widget a) j (END (corrected_text_widget a))]
          \<and> contents (paraphrase_text_widget a') =
              get (corrected_text_widget a) 0 i
              @ concat (map (\<lambda>w. w @ '' '') (take n words_paraphrased))
              @ get (corrected_text_widget a) j (END (corrected_text_widget a))
          \<and> (\<forall>k<n. ''changed'' \<in> set (snd (runs (paraphrase_text_widget a') ! Suc k))
                     \<longleftrightarrow> words_paraphrased ! k \<noteq> words_corrected ! k)"
proof -
  let ?zs = "zip words_original (zip words_paraphrased words_corrected)"
  let ?f = "\<lambda>(orig, para, corr).
              (para @ '' '', if para \<noteq> corr then [''changed'', ''selectable''] else [''selectable''])"
  from update_paraphrase_runs [OF s p c] obtain a' where
    a': "update_paraphrase spell tagger synsets rnd a = (None, a')"
    and r: "runs (paraphrase_text_widget a') =
              (get (corrected_text_widget a) 0 i, [''selectable''])
              # map ?f ?zs
              @ [(get (corrected_text_widget a) j (END (corrected_text_widget a)), [''selectable''])]"
    unfolding wo wp wc by (elim exE conjE)
  have len: "length ?zs = n" unfolding n by simp
  have mid: "map fst (map ?f ?zs) = map (\<lambda>w. w @ '' '') (take n words_paraphrased)"
  proof -
    have "map fst (map ?f ?zs) = map (\<lambda>w. w @ '' '') (map (\<lambda>(orig, para, corr). para) ?zs)"
      by (simp add: case_prod_unfold comp_def)
    then show ?thesis unfolding zip3_middle n .
  qed
  have one: "map fst (runs (paraphrase_text_widget a')) =
              get (corrected_text_widget a) 0 i
              # map (\<lambda>w. w @ '' '') (take n words_paraphrased)
              @ [get (corrected_text_widget a) j (END (corrected_text_widget a))]"
    unfolding r using mid by simp
  then have two: "contents (paraphrase_text_widget a') =
              get (corrected_text_widget a) 0 i
              @ concat (map (\<lambda>w. w @ '' '') (take n words_paraphrased))
              @ get (corrected_text_widget a) j (END (corrected_text_widget a))"
    unfolding contents_def by simp
  have three: "''changed'' \<in> set (snd (runs (paraphrase_text_widget a') ! Suc k))
                 \<longleftrightarrow> words_paraphrased ! k \<noteq> words_corrected ! k" if "k < n" for k
  proof -
    from that len have k: "k < length ?zs" by simp
    then have "runs (paraphrase_text_widget a') ! Suc k = ?f (?zs ! k)"
      unfolding r by (simp add: nth_append)
    moreover from k have "?zs ! k = (words_original ! k, words_paraphrased ! k, words_corrected ! k)"
      by simp
    ultimately show ?thesis by simp
  qed
  from three have "\<forall>k<n. ''changed'' \<in> set (snd (runs (paraphrase_text_widget a') ! Suc k))
                     \<longleftrightarrow> words_paraphrased ! k \<noteq> words_corrected ! k"
    by simp
  with a' one two show ?thesis by (intro exI [of _ a'] conjI)
qed

theorem update_paraphrase_drops_trailing_words_witness:
  "\<exists>a'. update_paraphrase Some word_tagger sample_synsets id sample_app = (None, a')
         \<and> length (str_split ''the big dog !'') = 4
         \<and> length (str_split ''the large dog!'') = 3
         \<and> contents (paraphrase_text_widget a') = ''See the large dog!  Bye'' @ [CHR 0x0A]
         \<and> ''changed'' \<in> set (snd (runs (paraphrase_text_widget a') ! 2))"
proof -
  have s: "sel (corrected_text_widget sample_app) = Some (4, 17)"
    by (simp add: sample_app_def empty_widget_def)
  have g: "get (corrected_text_widget sample_app) 4 17 = ''the big dog !''"
    by code_simp
  have b: "get (corrected_text_widget sample_app) 0 4 = ''See ''"
    by code_simp
  have e: "get (corrected_text_widget sample_app) 17 (END (corrected_text_widget sample_app))
             = '' Bye'' @ [CHR 0x0A]"
    by code_simp
  have p: "paraphrase_sentence word_tagger sample_synsets id (get (corrected_text_widget sample_app) 4 17)
             = Inr ''the large dog!''"
    by code_simp
  have c: "correct_spelling Some (get (corrected_text_widget sample_app) 4 17) = Inr ''the big dog''"
    by code_simp
  have wo: "str_split (get (corrected_text_widget sample_app) 4 17) = [''the'', ''big'', ''dog'', ''!'']"
    by code_simp
  have wp: "str_split ''the large dog!'' = [''the'', ''large'', ''dog!'']"
    by code_simp
  have wc: "str_split ''the big dog'' = [''the'', ''big'', ''dog'']"
    by code_simp
  have n: "(3::nat) = min (length [''the'', ''big'', ''dog'', ''!''])
                       (min (length [''the'', ''large'', ''dog!'']) (length [''the'', ''big'', ''dog'']))"
    by simp
  from update_paraphrase_drops_trailing_words
         [OF s p c wo [symmetric] wp [symmetric] wc [symmetric] n]
  obtain a' where
    1: "update_paraphrase Some word_tagger sample_synsets id sample_app = (None, a')"
    and 2: "contents (paraphrase_text_widget a') =
              get (corrected_text_widget sample_app) 0 4
              @ concat (map (\<lambda>w. w @ '' '') (take 3 [''the'', ''large'', ''dog!'']))
              @ get (corrected_text_widget sample_app) 17 (END (corrected_text_widget sample_app))"
    and 3: "\<forall>k<3. ''changed'' \<in> set (snd (runs (paraphrase_text_widget a') ! Suc k))
                     \<longleftrightarrow> [''the'', ''large'', ''dog!''] ! k \<noteq> [''the'', ''big'', ''dog''] ! k"
    by (elim exE conjE)
  from 2 have 4: "contents (paraphrase_text_widget a') = ''See the large dog!  Bye'' @ [CHR 0x0A]"
    unfolding b e by simp
  from 3 [THEN spec, of 1] have 5: "''changed'' \<in> set (snd (runs (paraphrase_text_widget a') ! 2))"
    by (simp add: numeral_2_eq_2)
  have 6: "length (str_split ''the big dog !'') = 4" "length (str_split ''the large dog!'') = 3"
    using wo wp unfolding g by simp_all
  from 1 6 4 5 show ?thesis by (intro exI [of _ a'] conjI)
qed

text \<open>
  C8. When the paraphrase action is invoked and nothing is selected in the corrected
  display, the action returns without raising and leaves every display as it was, the
  paraphrased display included.
\<close>

theorem update_paraphrase_without_selection:
  "sel (corrected_text_widget a) = None \<Longrightarrow>
   update_paraphrase spell tagger synsets rnd a = (None, a)"
  by (simp add: update_paraphrase_def)

theorem update_paraphrase_without_selection_witness:
  "sel (corrected_text_widget idle_app) = None
   \<and> update_paraphrase sample_spell word_tagger sample_synsets id idle_app = (None, idle_app)
   \<and> contents (paraphrase_text_widget idle_app) = ''earlier text''"
proof -
  have h: "sel (corrected_text_widget idle_app) = None"
    by (simp add: idle_app_def)
  have c: "contents (paraphrase_text_widget idle_app) = ''earlier text''"
    by (simp add: idle_app_def sample_app_def empty_widget_def contents_def)
  from update_paraphrase_without_selection [OF h] h c show ?thesis by simp
qed

text \<open>
  C10. The paraphrase action changes the paraphrased display only: whether it returns
  early, runs to its end or is left by an exception, the original-text display and the
  corrected-text display are what they were before.
\<close>

theorem update_paraphrase_frame:
  "original_text_widget (snd (update_paraphrase spell tagger synsets rnd a)) = original_text_widget a
   \<and> corrected_text_widget (snd (update_paraphrase spell tagger synsets rnd a)) = corrected_text_widget a"
  by (simp add: update_paraphrase_def Let_def split: option.splits sum.splits prod.splits)

end
